theory Spec2Isabelle
  imports Main "HOL-Library.Word"
begin

unbundle bit_operations_syntax

section \<open>States and actions of the river puzzle (DynamicBFS.cpp)\<close>

text \<open>
  States and actions are C++ \<open>short\<close> values: 16-bit machine integers.  The bitwise
  operators of the source promote their operands to \<open>int\<close> and the assignment to a
  \<open>short\<close> keeps the low 16 bits; bitwise AND, OR and NOT commute with that
  truncation, so the operations are the ones of \<open>16 word\<close>.
\<close>

type_synonym short = "16 word"

definition RW :: short where "RW = 0x01"
definition RG :: short where "RG = 0x02"
definition RC :: short where "RC = 0x04"
definition RP :: short where "RP = 0x08"
definition LW :: short where "LW = 0x10"
definition LG :: short where "LG = 0x20"
definition LC :: short where "LC = 0x40"
definition LP :: short where "LP = 0x80"
definition RPCGW :: short where "RPCGW = 0x0F"
definition PCGWR :: short where "PCGWR = 0xF0"
definition PGRCW :: short where "PGRCW = 0xA5"
definition CWRPG :: short where "CWRPG = 0x5A"
definition PCGRW :: short where "PCGRW = 0xE1"
definition WRPCG :: short where "WRPCG = 0x1E"
definition CRPGW :: short where "CRPGW = 0x4B"
definition PGWRC :: short where "PGWRC = 0xB4"
definition GRPCW :: short where "GRPCW = 0x2D"
definition PCWRG :: short where "PCWRG = 0xD2"

section \<open>class Problem and class BFSProblem\<close>

text \<open>
  \<open>Problem\<close> holds the two data members \<open>initial\<close> and \<open>goal\<close> and two pure virtual
  member functions.  An object is modelled as a record of its data members together
  with the two functions its virtual table points to; \<open>BFS\<close> calls them through the
  object, as the source does with \<open>p->actions\<close> and \<open>p->result\<close>.
\<close>

record Problem =
  initial :: short
  goal :: short
  actions :: "short \<Rightarrow> short list"
  result :: "short \<Rightarrow> short \<Rightarrow> short"

definition goal_test :: "Problem \<Rightarrow> short \<Rightarrow> bool" where
  "goal_test p g = (goal p = g)"

definition getInitial :: "Problem \<Rightarrow> short" where
  "getInitial p = initial p"

definition BFSProblem_actions :: "short \<Rightarrow> short list" where
  "BFSProblem_actions state =
    (if state = RPCGW then [LP OR LG]
     else if state = PGRCW then [RP, RP OR RG]
     else if state = PCGRW then [RP OR RC, RP OR RG]
     else if state = CRPGW then [LP OR LG, LP OR LW]
     else if state = PCWRG then [RP OR RC, RP OR RW, RP]
     else if state = WRPCG then [LP OR LC, LP OR LG]
     else if state = CWRPG then [LP, LP OR LG]
     else if state = GRPCW then [LP, LP OR LC, LP OR LW]
     else if state = PGWRC then [RP OR RG, RP OR RW]
     else [])"

definition BFSProblem_result :: "short \<Rightarrow> short \<Rightarrow> short" where
  "BFSProblem_result state action =
    (if action = LP then (state AND NOT RP) OR LP
     else if action = (LP OR LC) then (((state AND NOT RP) AND NOT RC) OR LP) OR LC
     else if action = (LP OR LG) then (((state AND NOT RP) AND NOT RG) OR LP) OR LG
     else if action = (LP OR LW) then (((state AND NOT RP) AND NOT RW) OR LP) OR LW
     else if action = RP then (state AND NOT LP) OR RP
     else if action = (RP OR RC) then (((state AND NOT LP) AND NOT LC) OR RP) OR RC
     else if action = (RP OR RG) then (((state AND NOT LP) AND NOT LG) OR RP) OR RG
     else if action = (RP OR RW) then (((state AND NOT LP) AND NOT LW) OR RP) OR RW
     else state)"

text \<open>The constructor \<open>BFSProblem(initial, goal)\<close>; \<open>goal\<close> defaults to 0 in the source.\<close>

definition BFSProblem :: "short \<Rightarrow> short \<Rightarrow> Problem" where
  "BFSProblem i g =
    \<lparr>initial = i, goal = g, actions = BFSProblem_actions, result = BFSProblem_result\<rparr>"

section \<open>class Node\<close>

text \<open>
  A node carries its state, the action that led to it and the cached solution \<open>soln\<close>.
  The member \<open>parent\<close> of the source is declared but never assigned and never read
  (the constructor only reads the parent's solution), so it is not part of the record.
  The constructor receives the parent through a pointer that may be null: the
  dereferenced parent is an optional node here.
\<close>

record node =
  state :: short
  action :: short
  soln :: "short list"

definition solution :: "node \<Rightarrow> short list" where
  "solution n = soln n"

definition getState :: "node \<Rightarrow> short" where
  "getState n = state n"

definition Node :: "short \<Rightarrow> short \<Rightarrow> node option \<Rightarrow> node" where
  "Node s a p =
    \<lparr>state = s, action = a,
     soln = (case p of None \<Rightarrow> [] | Some q \<Rightarrow> solution q) @ [a]\<rparr>"

text \<open>
  Depth in the search tree, by the constructor calls that built the node: a node made
  without a parent is at depth 0, a node made from a parent at depth \<open>d\<close> is at depth
  \<open>d + 1\<close>.
\<close>

inductive node_at_depth :: "nat \<Rightarrow> node \<Rightarrow> bool" where
  root: "node_at_depth 0 (Node s a None)"
| child: "node_at_depth d p \<Longrightarrow> node_at_depth (Suc d) (Node s a (Some p))"

section \<open>The search\<close>

text \<open>
  \<open>BFS\<close> keeps every node it creates in the deque \<open>expanded\<close>, in order of creation,
  and frees none of them before the goal branch.  A \<open>Node*\<close> is therefore modelled as the
  position of the node in \<open>expanded\<close>: the pointer returned by \<open>new Node\<close> is the
  current length of \<open>expanded\<close>, distinct from every pointer handed out before.
  \<open>frontier\<close> is a deque of such pointers and \<open>explored\<close> a deque of states.
\<close>

definition childNode :: "Problem \<Rightarrow> node list \<Rightarrow> nat \<Rightarrow> short \<Rightarrow> node" where
  "childNode prob heap parent a =
    Node (result prob (getState (heap ! parent)) a) a (Some (heap ! parent))"

text \<open>
  The goal branch of the search runs \<open>for(Node* n : expanded) delete n;\<close> and then
  \<open>return child->solution();\<close>.  The child was pushed onto \<open>expanded\<close> before the
  test, so it is among the nodes deleted.  The store after the deletes holds no live
  node: \<open>delete_all\<close> maps every cell to \<open>None\<close>.  Reading a member of a deleted
  object has no defined value in C++; \<open>read_solution\<close> returns the error
  \<open>UseAfterFree\<close> for a deleted cell and the cached solution for a live one.
\<close>

datatype error = UseAfterFree

definition delete_all :: "node list \<Rightarrow> node option list" where
  "delete_all expanded = map (\<lambda>n. None) expanded"

definition read_solution :: "node option list \<Rightarrow> nat \<Rightarrow> error + short list" where
  "read_solution store ptr =
    (case store ! ptr of None \<Rightarrow> Inl UseAfterFree | Some n \<Rightarrow> Inr (solution n))"

datatype outcome = Return "error + short list" | Continue "node list" "nat list"

text \<open>
  The \<open>for\<close> loop over the actions of the dequeued node.  \<open>find\<close> on \<open>frontier\<close>
  compares the pointer \<open>child\<close> with the queued pointers; \<open>find\<close> on \<open>explored\<close>
  compares states.  On a goal the loop deletes every node in \<open>expanded\<close> and returns
  what \<open>child->solution()\<close> reads from the store left by the deletes.
\<close>

fun for_actions ::
  "Problem \<Rightarrow> nat \<Rightarrow> short list \<Rightarrow> short list \<Rightarrow> node list \<Rightarrow> nat list \<Rightarrow> outcome" where
  "for_actions p n explored [] expanded frontier = Continue expanded frontier"
| "for_actions p n explored (a # as) expanded frontier =
    (let child = length expanded;
         expanded' = expanded @ [childNode p expanded n a]
     in if child \<notin> set frontier \<and> getState (expanded' ! child) \<notin> set explored
        then if goal_test p (getState (expanded' ! child))
             then Return (read_solution (delete_all expanded') child)
             else for_actions p n explored as expanded' (frontier @ [child])
        else for_actions p n explored as expanded' frontier)"

text \<open>One pass through the body of the \<open>while\<close> loop, for a non-empty frontier.\<close>

definition loop_body ::
  "Problem \<Rightarrow> node list \<Rightarrow> nat \<Rightarrow> nat list \<Rightarrow> short list \<Rightarrow> outcome \<times> short list" where
  "loop_body p expanded n frontier explored =
    (let explored' = explored @ [getState (expanded ! n)]
     in (for_actions p n explored' (actions p (getState (expanded ! n))) expanded frontier,
         explored'))"

partial_function (option) while_frontier ::
  "Problem \<Rightarrow> short list \<Rightarrow> node list \<Rightarrow> nat list \<Rightarrow> short list \<Rightarrow>
    (error + short list) option" where
  "while_frontier p sol expanded frontier explored =
    (case frontier of
       [] \<Rightarrow> Some (Inr sol)
     | n # rest \<Rightarrow>
        (case loop_body p expanded n rest explored of
           (Return s, explored') \<Rightarrow> Some s
         | (Continue expanded' frontier', explored') \<Rightarrow>
             while_frontier p sol expanded' frontier' explored'))"

definition BFS :: "Problem \<Rightarrow> (error + short list) option" where
  "BFS p =
    (let root = Node (getInitial p) 0 None;
         sol = (if goal_test p (getState root) then solution root else [])
     in while_frontier p sol [root] [0] [])"

text \<open>The problem built in \<open>main\<close>.\<close>

definition main_problem :: Problem where
  "main_problem = BFSProblem RPCGW PCGWR"

declare while_frontier.simps [code]

text \<open>
  The state of the search at the head of the \<open>while\<close> loop after \<open>k\<close> complete passes
  through its body (\<open>None\<close> once the loop has left): the same \<open>loop_body\<close>, run a
  fixed number of times.  The deque \<open>explored\<close> receives the state of each dequeued
  node immediately before \<open>actions\<close> is called on it, so it lists, in order, the states
  that have been expanded.
\<close>

fun run_iterations ::
  "nat \<Rightarrow> Problem \<Rightarrow> node list \<Rightarrow> nat list \<Rightarrow> short list \<Rightarrow>
    (node list \<times> nat list \<times> short list) option" where
  "run_iterations 0 p H F E = Some (H, F, E)"
| "run_iterations (Suc k) p H F E =
    (case F of
       [] \<Rightarrow> None
     | n # rest \<Rightarrow>
        (case loop_body p H n rest E of
           (Return s, E') \<Rightarrow> None
         | (Continue H' F', E') \<Rightarrow> run_iterations k p H' F' E'))"

section \<open>Notions used to state the properties\<close>

text \<open>
  \<open>follows p s as t\<close>: the action sequence \<open>as\<close> is legal from state \<open>s\<close> (each action
  is among \<open>actions\<close> of the state it is applied to) and \<open>result\<close> leads along it to \<open>t\<close>.
  A problem is solvable when some legal sequence leads from its initial state to a
  state that passes \<open>goal_test\<close>.
\<close>

fun follows :: "Problem \<Rightarrow> short \<Rightarrow> short list \<Rightarrow> short \<Rightarrow> bool" where
  "follows p s [] t = (s = t)"
| "follows p s (a # as) t = (a \<in> set (actions p s) \<and> follows p (result p s a) as t)"

definition solvable :: "Problem \<Rightarrow> bool" where
  "solvable p = (\<exists>as t. follows p (initial p) as t \<and> goal_test p t)"

text \<open>
  An entity is on exactly one bank when exactly one of its two bank bits is set; a state
  is well placed when this holds for the peasant, the cabbage, the goat and the wolf.
\<close>

definition one_bank :: "short \<Rightarrow> short \<Rightarrow> short \<Rightarrow> bool" where
  "one_bank s l r = ((s AND l \<noteq> 0) \<noteq> (s AND r \<noteq> 0))"

definition well_placed :: "short \<Rightarrow> bool" where
  "well_placed s =
    (one_bank s LP RP \<and> one_bank s LC RC \<and> one_bank s LG RG \<and> one_bank s LW RW)"

section \<open>Notions used in the proofs\<close>

text \<open>
  The children that one pass of the \<open>for\<close> loop appends to the frontier, as nodes: one
  for each action whose resulting state is not in \<open>explored\<close>.
\<close>

definition kids :: "Problem \<Rightarrow> node \<Rightarrow> short list \<Rightarrow> short list \<Rightarrow> node list" where
  "kids p nd E as =
    filter (\<lambda>c. state c \<notin> set E) (map (\<lambda>a. Node (result p (state nd) a) a (Some nd)) as)"

text \<open>
  The invariant of the \<open>while\<close> loop, over the queued nodes \<open>ns\<close> and \<open>explored\<close>:
  the initial state is explored or at the front; every queued node caches the sentinel
  followed by a legal path to its state; the goal (unless it is the initial state) is
  neither explored nor queued; successors of explored states are explored or queued;
  the queue is ordered by depth and spans at most two levels; and every state within
  the depth of the front node is explored or queued at that depth.
\<close>

definition Inv :: "Problem \<Rightarrow> node list \<Rightarrow> short list \<Rightarrow> bool" where
  "Inv p ns E \<longleftrightarrow>
    (initial p \<in> set E \<or> (ns \<noteq> [] \<and> state (hd ns) = initial p)) \<and>
    (\<forall>c\<in>set ns. \<exists>as. soln c = 0 # as \<and> follows p (initial p) as (state c)) \<and>
    (goal p \<noteq> initial p \<longrightarrow> goal p \<notin> set E \<and> goal p \<notin> state ` set ns) \<and>
    (\<forall>s\<in>set E. \<forall>a\<in>set (actions p s). result p s a \<in> set E \<union> state ` set ns) \<and>
    sorted (map (\<lambda>c. length (soln c)) ns) \<and>
    (\<forall>c\<in>set ns. length (soln c) \<le> Suc (length (soln (hd ns)))) \<and>
    (ns \<noteq> [] \<longrightarrow> (\<forall>bs t. follows p (initial p) bs t \<and> length bs < length (soln (hd ns)) \<longrightarrow>
        t \<in> set E \<or> (\<exists>c\<in>set ns. state c = t \<and> length (soln c) = length (soln (hd ns)))))"

text \<open>
  What the search returns: the root's solution when the initial state is the goal, the
  read of a deleted node when the goal is found in the loop, the empty deque when no
  goal state can be reached.
\<close>

definition Post :: "Problem \<Rightarrow> error + short list \<Rightarrow> bool" where
  "Post p v \<longleftrightarrow>
    (if solvable p
     then if goal_test p (initial p) then v = Inr [0] else v = Inl UseAfterFree
     else v = Inr [])"

text \<open>
  The termination order: the number of states not yet explored, then the number of
  queued nodes whose state is already explored.
\<close>

definition unexplored :: "short list \<Rightarrow> nat" where
  "unexplored E = card (- set E)"

definition stale :: "node list \<Rightarrow> short list \<Rightarrow> nat" where
  "stale ns E = length (filter (\<lambda>c. state c \<in> set E) ns)"

section \<open>Legal action sequences\<close>

lemmas bank_bits = RW_def RG_def RC_def RP_def LW_def LG_def LC_def LP_def

lemmas state_codes = RPCGW_def PCGWR_def PGRCW_def CWRPG_def PCGRW_def
  WRPCG_def CRPGW_def PGWRC_def GRPCW_def PCWRG_def

lemma follows_append:
  "follows p s (as @ bs) t = (\<exists>u. follows p s as u \<and> follows p u bs t)"
  by (induction as arbitrary: s) auto

lemma follows_snoc:
  "follows p s (as @ [a]) t =
    (\<exists>u. follows p s as u \<and> a \<in> set (actions p u) \<and> t = result p u a)"
  by (auto simp: follows_append)

lemma solvable_iff: "solvable p = (\<exists>as. follows p (initial p) as (goal p))"
  by (auto simp: solvable_def goal_test_def)

lemma closed_follows:
  assumes "follows p s bs t" and "s \<in> S"
    and "\<forall>s\<in>S. \<forall>a\<in>set (actions p s). result p s a \<in> S"
  shows "t \<in> S"
  using assms by (induction bs arbitrary: s) auto

section \<open>The for loop, as a list of children\<close>

text \<open>
  With every queued pointer inside \<open>expanded\<close>, the pointer of a new child is not in the
  frontier, and the loop appends exactly the children whose state is not explored.
\<close>

lemma kids_Nil [simp]: "kids p nd E [] = []"
  by (simp add: kids_def)

lemma kids_Cons:
  "kids p nd E (a # as) =
    (if result p (state nd) a \<in> set E then kids p nd E as
     else Node (result p (state nd) a) a (Some nd) # kids p nd E as)"
  by (simp add: kids_def Node_def)

lemma kids_props:
  assumes "c \<in> set (kids p nd E as)"
  shows "\<exists>a\<in>set as. soln c = soln nd @ [a] \<and> state c = result p (state nd) a \<and> state c \<notin> set E"
  using assms by (auto simp: kids_def Node_def solution_def)

lemma kids_cover:
  assumes "a \<in> set as" and "result p (state nd) a \<notin> set E"
  shows "result p (state nd) a \<in> state ` set (kids p nd E as)"
proof -
  let ?c = "Node (result p (state nd) a) a (Some nd)"
  have "?c \<in> set (kids p nd E as)" and "state ?c = result p (state nd) a"
    using assms by (auto simp: kids_def Node_def)
  then show ?thesis by force
qed

lemma for_actions_Continue:
  assumes "\<forall>q\<in>set F. q < length H" and "n < length H"
    and "for_actions p n E as H F = Continue H' F'"
  shows "(\<forall>q\<in>set F'. q < length H') \<and>
         map ((!) H') F' = map ((!) H) F @ kids p (H ! n) E as \<and>
         (\<forall>c\<in>set (kids p (H ! n) E as). state c \<noteq> goal p)"
  using assms
proof (induction as arbitrary: H F)
  case Nil
  then show ?case by simp
next
  case (Cons a as)
  let ?c = "Node (result p (state (H ! n)) a) a (Some (H ! n))"
  let ?H1 = "H @ [?c]"
  have old: "map ((!) ?H1) F = map ((!) H) F"
    using Cons.prems(1) by (simp add: nth_append)
  have n1: "n < length ?H1" and Hn: "?H1 ! n = H ! n"
    using Cons.prems(2) by (simp_all add: nth_append)
  have fresh: "length H \<notin> set F"
    using Cons.prems(1) by auto
  have st: "state ?c = result p (state (H ! n)) a"
    by (simp add: Node_def)
  show ?case
  proof (cases "result p (state (H ! n)) a \<in> set E")
    case True
    then have run: "for_actions p n E as ?H1 F = Continue H' F'"
      using Cons.prems(3) by (simp add: childNode_def getState_def st)
    have v1: "\<forall>q\<in>set F. q < length ?H1"
      using Cons.prems(1) by auto
    from Cons.IH [OF v1 n1 run] True show ?thesis
      by (simp add: old Hn kids_Cons)
  next
    case False
    then have ng: "goal p \<noteq> result p (state (H ! n)) a"
      using Cons.prems(3) fresh
      by (auto simp: childNode_def getState_def st goal_test_def split: if_splits)
    then have run: "for_actions p n E as ?H1 (F @ [length H]) = Continue H' F'"
      using Cons.prems(3) fresh False
      by (simp add: childNode_def getState_def st goal_test_def)
    have v1: "\<forall>q\<in>set (F @ [length H]). q < length ?H1"
      using Cons.prems(1) by auto
    from Cons.IH [OF v1 n1 run] False ng show ?thesis
      by (simp add: old Hn kids_Cons st)
  qed
qed

lemma read_deleted:
  assumes "ptr < length expanded"
  shows "read_solution (delete_all expanded) ptr = Inl UseAfterFree"
  using assms by (simp add: read_solution_def delete_all_def)

lemma for_actions_Return:
  assumes "\<forall>q\<in>set F. q < length H" and "n < length H"
    and "for_actions p n E as H F = Return r"
  shows "r = Inl UseAfterFree \<and> (\<exists>c\<in>set (kids p (H ! n) E as). state c = goal p)"
  using assms
proof (induction as arbitrary: H F)
  case Nil
  then show ?case by simp
next
  case (Cons a as)
  let ?c = "Node (result p (state (H ! n)) a) a (Some (H ! n))"
  let ?H1 = "H @ [?c]"
  have n1: "n < length ?H1" and Hn: "?H1 ! n = H ! n"
    using Cons.prems(2) by (simp_all add: nth_append)
  have fresh: "length H \<notin> set F"
    using Cons.prems(1) by auto
  have st: "state ?c = result p (state (H ! n)) a"
    by (simp add: Node_def)
  show ?case
  proof (cases "result p (state (H ! n)) a \<in> set E")
    case True
    then have run: "for_actions p n E as ?H1 F = Return r"
      using Cons.prems(3) by (simp add: childNode_def getState_def st)
    have v1: "\<forall>q\<in>set F. q < length ?H1"
      using Cons.prems(1) by auto
    from Cons.IH [OF v1 n1 run] True show ?thesis
      by (simp add: Hn kids_Cons)
  next
    case False
    show ?thesis
    proof (cases "goal p = result p (state (H ! n)) a")
      case True
      then have "r = Inl UseAfterFree"
        using Cons.prems(3) fresh False
        by (simp add: childNode_def getState_def st goal_test_def read_deleted)
      with True False show ?thesis
        by (simp add: kids_Cons st)
    next
      case ng: False
      then have run: "for_actions p n E as ?H1 (F @ [length H]) = Return r"
        using Cons.prems(3) fresh False
        by (simp add: childNode_def getState_def st goal_test_def)
      have v1: "\<forall>q\<in>set (F @ [length H]). q < length ?H1"
        using Cons.prems(1) by auto
      from Cons.IH [OF v1 n1 run] False show ?thesis
        by (simp add: Hn kids_Cons)
    qed
  qed
qed

lemma for_actions_heap:
  assumes "n < length H" and "for_actions p n E as H F = Continue H' F'"
  shows "\<forall>m\<in>set H'. m \<in> set H \<or> (\<exists>a\<in>set as. state m = result p (state (H ! n)) a)"
  using assms
proof (induction as arbitrary: H F)
  case Nil
  then show ?case by simp
next
  case (Cons a as)
  let ?H1 = "H @ [childNode p H n a]"
  have n1: "n < length ?H1" and Hn: "?H1 ! n = H ! n"
    using Cons.prems(1) by (simp_all add: nth_append)
  from Cons.prems(2) obtain F1 where "for_actions p n E as ?H1 F1 = Continue H' F'"
    by (auto simp: Let_def split: if_splits)
  from Cons.IH [OF n1 this]
  have "\<forall>m\<in>set H'. m \<in> set ?H1 \<or> (\<exists>a\<in>set as. state m = result p (state (H ! n)) a)"
    by (simp only: Hn)
  moreover have "state (childNode p H n a) = result p (state (H ! n)) a"
    by (simp add: childNode_def Node_def getState_def)
  ultimately show ?case by auto
qed

section \<open>The loop invariant\<close>

lemma sorted_hd_le:
  assumes "sorted (map f xs)" and "c \<in> set xs"
  shows "f (hd xs) \<le> (f c :: nat)"
  using assms by (cases xs) auto

lemma Inv_init: "Inv p [Node (initial p) 0 None] []"
  by (auto simp: Inv_def Node_def)

lemma Inv_step:
  assumes inv: "Inv p (nd # rest) E"
    and E': "E' = E @ [state nd]"
    and ks: "ks = kids p nd E' (actions p (state nd))"
    and nogoal: "\<forall>c\<in>set ks. state c \<noteq> goal p"
  shows "Inv p (rest @ ks) E'"
proof -
  let ?i = "initial p" and ?g = "goal p"
  let ?len = "\<lambda>c. length (soln c)"
  from inv have I0: "?i \<in> set E \<or> state nd = ?i"
    and P: "\<forall>c\<in>set (nd # rest). \<exists>as. soln c = 0 # as \<and> follows p ?i as (state c)"
    and G: "?g \<noteq> ?i \<longrightarrow> ?g \<notin> set E \<and> ?g \<notin> state ` set (nd # rest)"
    and C: "\<forall>s\<in>set E. \<forall>a\<in>set (actions p s). result p s a \<in> set E \<union> state ` set (nd # rest)"
    and S: "sorted (map ?len (nd # rest))"
    and B: "\<forall>c\<in>set (nd # rest). ?len c \<le> Suc (?len nd)"
    and L: "\<forall>bs t. follows p ?i bs t \<and> length bs < ?len nd \<longrightarrow>
        t \<in> set E \<or> (\<exists>c\<in>set (nd # rest). state c = t \<and> ?len c = ?len nd)"
    by (simp_all add: Inv_def)
  have kp: "\<exists>a\<in>set (actions p (state nd)). soln c = soln nd @ [a] \<and>
      state c = result p (state nd) a \<and> state c \<notin> set E'" if "c \<in> set ks" for c
    using that kids_props [of c p nd E'] by (simp add: ks)
  have klen: "?len c = Suc (?len nd)" if "c \<in> set ks" for c
    using kp [OF that] by auto
  have rlo: "?len nd \<le> ?len c" if "c \<in> set rest" for c
    using S that by simp
  have rhi: "?len c \<le> Suc (?len nd)" if "c \<in> set rest" for c
    using B that by simp
  \<comment> \<open>the root state\<close>
  have I0': "?i \<in> set E'"
    using I0 by (auto simp: E')
  \<comment> \<open>paths\<close>
  have P': "\<forall>c\<in>set (rest @ ks). \<exists>as. soln c = 0 # as \<and> follows p ?i as (state c)"
  proof
    fix c assume "c \<in> set (rest @ ks)"
    then consider "c \<in> set rest" | "c \<in> set ks" by auto
    then show "\<exists>as. soln c = 0 # as \<and> follows p ?i as (state c)"
    proof cases
      case 1
      then show ?thesis using P by simp
    next
      case 2
      from kp [OF 2] obtain a where a: "a \<in> set (actions p (state nd))"
        "soln c = soln nd @ [a]" "state c = result p (state nd) a" by auto
      from P obtain as where as: "soln nd = 0 # as" "follows p ?i as (state nd)" by auto
      have "follows p ?i (as @ [a]) (state c)"
        using a as by (auto simp: follows_snoc)
      then show ?thesis using a as by auto
    qed
  qed
  \<comment> \<open>the goal is not queued\<close>
  have G': "?g \<noteq> ?i \<longrightarrow> ?g \<notin> set E' \<and> ?g \<notin> state ` set (rest @ ks)"
    using G nogoal by (auto simp: E')
  \<comment> \<open>closure\<close>
  have C': "\<forall>s\<in>set E'. \<forall>a\<in>set (actions p s). result p s a \<in> set E' \<union> state ` set (rest @ ks)"
  proof (intro ballI)
    fix s a assume s: "s \<in> set E'" and a: "a \<in> set (actions p s)"
    show "result p s a \<in> set E' \<union> state ` set (rest @ ks)"
    proof (cases "s \<in> set E")
      case True
      with C a have "result p s a \<in> set E \<union> state ` set (nd # rest)" by blast
      then show ?thesis by (auto simp: E')
    next
      case False
      with s have sn: "s = state nd" by (simp add: E')
      show ?thesis
      proof (cases "result p s a \<in> set E'")
        case True
        then show ?thesis by simp
      next
        case False
        then have "result p (state nd) a \<in> state ` set ks"
          using kids_cover [of a "actions p (state nd)" p nd E'] a sn by (simp add: ks)
        then show ?thesis using sn by auto
      qed
    qed
  qed
  \<comment> \<open>depths\<close>
  have S': "sorted (map ?len (rest @ ks))"
  proof -
    have "sorted (map ?len rest)" using S by simp
    moreover have "sorted (map ?len ks)"
      using klen by (simp add: sorted_wrt_iff_nth_less sorted_iff_nth_mono_less)
    moreover have "\<forall>x\<in>set rest. \<forall>y\<in>set ks. ?len x \<le> ?len y"
      using rhi klen by simp
    ultimately show ?thesis by (simp add: sorted_append)
  qed
  have hd_lo: "?len nd \<le> ?len (hd (rest @ ks))" if "rest @ ks \<noteq> []"
  proof -
    from that have "hd (rest @ ks) \<in> set (rest @ ks)" by (rule hd_in_set)
    then show ?thesis using rlo klen by fastforce
  qed
  have hd_hi: "?len (hd (rest @ ks)) \<le> Suc (?len nd)" if "rest @ ks \<noteq> []"
  proof -
    from that have "hd (rest @ ks) \<in> set (rest @ ks)" by (rule hd_in_set)
    then show ?thesis using rhi klen by fastforce
  qed
  have all_ge: "?len (hd (rest @ ks)) \<le> ?len c" if "c \<in> set (rest @ ks)" for c
    using sorted_hd_le [OF S' that] .
  have B': "\<forall>c\<in>set (rest @ ks). ?len c \<le> Suc (?len (hd (rest @ ks)))"
  proof
    fix c assume c: "c \<in> set (rest @ ks)"
    then have ne: "rest @ ks \<noteq> []" by auto
    have "?len c \<le> Suc (?len nd)" using c rhi klen by fastforce
    with hd_lo [OF ne] show "?len c \<le> Suc (?len (hd (rest @ ks)))" by simp
  qed
  \<comment> \<open>levels\<close>
  have low: "t \<in> set E' \<or> (?len (hd (rest @ ks)) = ?len nd \<and>
        (\<exists>c\<in>set (rest @ ks). state c = t \<and> ?len c = ?len nd))"
    if "follows p ?i bs t" and "length bs < ?len nd" and "rest @ ks \<noteq> []" for bs t
  proof -
    from L that have "t \<in> set E \<or> (\<exists>c\<in>set (nd # rest). state c = t \<and> ?len c = ?len nd)"
      by blast
    then consider "t \<in> set E" | "t = state nd"
      | c where "c \<in> set rest" "state c = t" "?len c = ?len nd" by auto
    then show ?thesis
    proof cases
      case 1 then show ?thesis by (simp add: E')
    next
      case 2 then show ?thesis by (simp add: E')
    next
      case 3
      have "?len (hd (rest @ ks)) \<le> ?len c" using all_ge 3(1) by simp
      with hd_lo [OF that(3)] 3(3) have "?len (hd (rest @ ks)) = ?len nd" by simp
      with 3 show ?thesis by auto
    qed
  qed
  have L': "rest @ ks \<noteq> [] \<longrightarrow> (\<forall>bs t. follows p ?i bs t \<and> length bs < ?len (hd (rest @ ks)) \<longrightarrow>
        t \<in> set E' \<or> (\<exists>c\<in>set (rest @ ks). state c = t \<and> ?len c = ?len (hd (rest @ ks))))"
  proof (intro impI allI, elim conjE)
    fix bs t
    assume ne: "rest @ ks \<noteq> []" and f: "follows p ?i bs t"
      and lt: "length bs < ?len (hd (rest @ ks))"
    show "t \<in> set E' \<or> (\<exists>c\<in>set (rest @ ks). state c = t \<and> ?len c = ?len (hd (rest @ ks)))"
    proof (cases "length bs < ?len nd")
      case True
      from low [OF f True ne] show ?thesis by auto
    next
      case False
      with lt hd_hi [OF ne] have hl: "?len (hd (rest @ ks)) = Suc (?len nd)"
        and bl: "length bs = ?len nd" by simp_all
      from P obtain as where "soln nd = 0 # as" by auto
      with bl have "bs \<noteq> []" by auto
      then obtain bs' a where bs: "bs = bs' @ [a]" by (meson rev_exhaust)
      with f obtain u where u: "follows p ?i bs' u" "a \<in> set (actions p u)" "t = result p u a"
        by (auto simp: follows_snoc)
      have "length bs' < ?len nd" using bl bs by simp
      from low [OF u(1) this ne] hl have "u \<in> set E'" by simp
      with C' u have "t \<in> set E' \<union> state ` set (rest @ ks)" by blast
      moreover have "?len c = ?len (hd (rest @ ks))" if "c \<in> set (rest @ ks)" for c
      proof -
        have "?len c \<le> Suc (?len nd)" using that rhi klen by fastforce
        with all_ge [OF that] hl show ?thesis by simp
      qed
      ultimately show ?thesis by auto
    qed
  qed
  show ?thesis
    unfolding Inv_def using I0' P' G' C' S' B' L' by blast
qed

lemma Inv_found:
  assumes inv: "Inv p (nd # rest) E"
    and c: "c \<in> set (kids p nd (E @ [state nd]) (actions p (state nd)))"
    and g: "state c = goal p"
  shows "solvable p \<and> goal p \<noteq> initial p \<and>
      (\<exists>as. soln c = 0 # as \<and> follows p (initial p) as (goal p) \<and>
         (\<forall>bs. follows p (initial p) bs (goal p) \<longrightarrow> length as \<le> length bs))"
proof -
  let ?i = "initial p" and ?g = "goal p"
  let ?len = "\<lambda>c. length (soln c)"
  from inv have I0: "?i \<in> set E \<or> state nd = ?i"
    and P: "\<exists>as. soln nd = 0 # as \<and> follows p ?i as (state nd)"
    and G: "?g \<noteq> ?i \<longrightarrow> ?g \<notin> set E \<and> ?g \<notin> state ` set (nd # rest)"
    and L: "\<forall>bs t. follows p ?i bs t \<and> length bs < ?len nd \<longrightarrow>
        t \<in> set E \<or> (\<exists>c\<in>set (nd # rest). state c = t \<and> ?len c = ?len nd)"
    by (simp_all add: Inv_def)
  from kids_props [OF c] obtain a where a: "a \<in> set (actions p (state nd))"
    "soln c = soln nd @ [a]" "state c = result p (state nd) a"
    "state c \<notin> set (E @ [state nd])" by auto
  from a(4) g I0 have ne: "?g \<noteq> ?i" by auto
  from P obtain as where as: "soln nd = 0 # as" "follows p ?i as (state nd)" by auto
  have path: "follows p ?i (as @ [a]) ?g"
    using a as g by (auto simp: follows_snoc)
  then have sv: "solvable p" by (auto simp: solvable_iff)
  have "length (as @ [a]) \<le> length bs" if "follows p ?i bs ?g" for bs
  proof (rule ccontr)
    assume "\<not> length (as @ [a]) \<le> length bs"
    then have "length bs < ?len nd" using as by simp
    with L that have "?g \<in> set E \<or> (\<exists>c\<in>set (nd # rest). state c = ?g)" by blast
    then have "?g \<in> set E \<or> ?g \<in> state ` set (nd # rest)" by force
    with G ne show False by blast
  qed
  with path sv ne a as show ?thesis by auto
qed

lemma Inv_exit:
  assumes inv: "Inv p [] E"
  shows "Post p (Inr (if goal p = initial p then [0] else []))"
proof (cases "goal p = initial p")
  case True
  then have "follows p (initial p) [] (goal p)" by simp
  then have "solvable p" unfolding solvable_iff by blast
  with True show ?thesis by (simp add: Post_def goal_test_def)
next
  case False
  from inv have I0: "initial p \<in> set E"
    and G: "goal p \<notin> set E"
    and C: "\<forall>s\<in>set E. \<forall>a\<in>set (actions p s). result p s a \<in> set E"
    using False by (simp_all add: Inv_def)
  have "\<not> solvable p"
  proof
    assume "solvable p"
    then obtain bs where "follows p (initial p) bs (goal p)" by (auto simp: solvable_iff)
    from closed_follows [OF this I0 C] G show False by simp
  qed
  with False show ?thesis by (simp add: Post_def)
qed

section \<open>Termination and total correctness of the while loop\<close>

lemma unexplored_less:
  assumes "s \<notin> set E"
  shows "unexplored (E @ [s]) < unexplored E"
proof -
  have "- set (E @ [s]) \<subset> - set E" using assms by auto
  then show ?thesis
    unfolding unexplored_def by (intro psubset_card_mono) simp_all
qed

lemma unexplored_same:
  assumes "s \<in> set E"
  shows "unexplored (E @ [s]) = unexplored E"
proof -
  have "set (E @ [s]) = set E" using assms by auto
  then show ?thesis by (simp add: unexplored_def)
qed

lemma stale_less:
  assumes "state nd \<in> set E"
  shows "stale (rest @ kids p nd (E @ [state nd]) as) (E @ [state nd]) < stale (nd # rest) E"
proof -
  have e: "set (E @ [state nd]) = set E" using assms by auto
  have "filter (\<lambda>c. state c \<in> set E) (kids p nd (E @ [state nd]) as) = []"
    unfolding kids_def e by (simp add: filter_empty_conv)
  then show ?thesis
    using assms unfolding stale_def e by simp
qed

lemma while_frontier_Nil: "while_frontier p sol H [] E = Some (Inr sol)"
  by (subst while_frontier.simps) simp

lemma while_frontier_Cons:
  "while_frontier p sol H (n # rest) E =
    (case loop_body p H n rest E of
       (Return s, E') \<Rightarrow> Some s
     | (Continue H' F', E') \<Rightarrow> while_frontier p sol H' F' E')"
  by (subst while_frontier.simps) simp

lemma while_frontier_total_aux:
  assumes "wf R" and "R = less_than <*lex*> less_than"
  shows "\<forall>H F E. m = (unexplored E, stale (map ((!) H) F) E) \<longrightarrow>
      (\<forall>q\<in>set F. q < length H) \<longrightarrow> Inv p (map ((!) H) F) E \<longrightarrow>
      (\<exists>r. while_frontier p (if goal p = initial p then [0] else []) H F E = Some r \<and> Post p r)"
  using assms(1)
proof (induct m rule: wf_induct_rule)
  case (less m)
  show ?case
  proof (intro allI impI)
    fix H F E
    assume m: "m = (unexplored E, stale (map ((!) H) F) E)"
      and V: "\<forall>q\<in>set F. q < length H"
      and inv: "Inv p (map ((!) H) F) E"
    let ?sol = "if goal p = initial p then [0] else []"
    show "\<exists>r. while_frontier p ?sol H F E = Some r \<and> Post p r"
    proof (cases F)
      case Nil
      with inv have "Post p (Inr ?sol)" using Inv_exit [of p E] by simp
      with Nil show ?thesis by (simp add: while_frontier_Nil)
    next
      case (Cons n rest)
      let ?nd = "H ! n"
      let ?E' = "E @ [state ?nd]"
      let ?ks = "kids p ?nd ?E' (actions p (state ?nd))"
      have Vr: "\<forall>q\<in>set rest. q < length H" and n: "n < length H"
        using V Cons by simp_all
      have inv0: "Inv p (?nd # map ((!) H) rest) E"
        using inv Cons by simp
      show ?thesis
      proof (cases "for_actions p n ?E' (actions p (state ?nd)) H rest")
        case (Return r)
        from for_actions_Return [OF Vr n Return]
        obtain c where c: "c \<in> set ?ks" "state c = goal p" and r: "r = Inl UseAfterFree"
          by auto
        from Inv_found [OF inv0 c] r have "Post p r"
          by (auto simp: Post_def goal_test_def)
        with Return Cons show ?thesis
          by (simp add: while_frontier_Cons loop_body_def getState_def)
      next
        case (Continue H' F')
        from for_actions_Continue [OF Vr n Continue]
        have V': "\<forall>q\<in>set F'. q < length H'"
          and F': "map ((!) H') F' = map ((!) H) rest @ ?ks"
          and ng: "\<forall>c\<in>set ?ks. state c \<noteq> goal p" by auto
        have inv': "Inv p (map ((!) H') F') ?E'"
          unfolding F' using Inv_step [OF inv0 refl refl ng] .
        have dec: "((unexplored ?E', stale (map ((!) H') F') ?E'), m) \<in> R"
        proof (cases "state ?nd \<in> set E")
          case True
          from stale_less [OF True, of "map ((!) H) rest" p "actions p (state ?nd)"]
            unexplored_same [OF True]
          show ?thesis by (simp add: m assms(2) F' Cons)
        next
          case False
          from unexplored_less [OF False] show ?thesis by (simp add: m assms(2))
        qed
        from less [OF dec] V' inv'
        have "\<exists>r. while_frontier p ?sol H' F' ?E' = Some r \<and> Post p r" by blast
        with Continue Cons show ?thesis
          by (simp add: while_frontier_Cons loop_body_def getState_def)
      qed
    qed
  qed
qed

lemma while_frontier_total:
  assumes "\<forall>q\<in>set F. q < length H" and "Inv p (map ((!) H) F) E"
  shows "\<exists>r. while_frontier p (if goal p = initial p then [0] else []) H F E = Some r \<and> Post p r"
proof -
  have "wf (less_than <*lex*> less_than)" by (intro wf_lex_prod wf_less_than)
  from while_frontier_total_aux [OF this refl] assms show ?thesis by blast
qed

lemma BFS_total: "\<exists>r. BFS p = Some r \<and> Post p r"
proof -
  let ?root = "Node (initial p) 0 None"
  have sol: "(if goal_test p (getState ?root) then solution ?root else []) =
      (if goal p = initial p then [0] else [])"
    by (simp add: goal_test_def getState_def solution_def Node_def)
  have "Inv p (map ((!) [?root]) [0]) []"
    using Inv_init [of p] by simp
  from while_frontier_total [OF _ this] sol show ?thesis
    by (simp add: BFS_def getInitial_def Let_def)
qed

section \<open>Iterations of the loop\<close>

lemma run_iterations_numeral:
  "run_iterations (numeral k) p H F E =
    (case F of
       [] \<Rightarrow> None
     | n # rest \<Rightarrow>
        (case loop_body p H n rest E of
           (Return s, E') \<Rightarrow> None
         | (Continue H' F', E') \<Rightarrow> run_iterations (pred_numeral k) p H' F' E'))"
  by (simp add: numeral_eq_Suc)

lemma while_frontier_run_iterations:
  "run_iterations k p H F E = Some (H', F', E') \<Longrightarrow>
    while_frontier p sol H F E = while_frontier p sol H' F' E'"
proof (induction k arbitrary: H F E)
  case 0
  then show ?case by simp
next
  case (Suc k)
  then show ?case
    by (auto simp: while_frontier_Cons split: list.splits prod.splits outcome.splits)
qed

lemma run_iterations_states:
  assumes closed: "\<And>s a. Q s \<Longrightarrow> a \<in> set (actions p s) \<Longrightarrow> Q (result p s a)"
    and "\<forall>q\<in>set F. q < length H" and "\<forall>m\<in>set H. Q (state m)"
    and "run_iterations k p H F E = Some (H', F', E')"
  shows "\<forall>m\<in>set H'. Q (state m)"
  using assms(2-)
proof (induction k arbitrary: H F E)
  case 0
  then show ?case by simp
next
  case (Suc k)
  from Suc.prems(3) obtain n rest H1 F1 E1 where F: "F = n # rest"
    and body: "loop_body p H n rest E = (Continue H1 F1, E1)"
    and run: "run_iterations k p H1 F1 E1 = Some (H', F', E')"
    by (auto split: list.splits prod.splits outcome.splits)
  have Vr: "\<forall>q\<in>set rest. q < length H" and n: "n < length H"
    using Suc.prems(1) F by simp_all
  from body have fa: "for_actions p n (E @ [state (H ! n)]) (actions p (state (H ! n))) H rest =
      Continue H1 F1"
    by (auto simp: loop_body_def getState_def Let_def)
  from for_actions_Continue [OF Vr n fa] have V1: "\<forall>q\<in>set F1. q < length H1" by simp
  have "\<forall>m\<in>set H1. Q (state m)"
  proof
    fix m assume "m \<in> set H1"
    with for_actions_heap [OF n fa]
    have "m \<in> set H \<or> (\<exists>a\<in>set (actions p (state (H ! n))). state m = result p (state (H ! n)) a)"
      by blast
    moreover have "Q (state (H ! n))" using Suc.prems(2) n by simp
    ultimately show "Q (state m)" using Suc.prems(2) closed by auto
  qed
  from Suc.IH [OF V1 this run] show ?case .
qed

section \<open>Bank bits\<close>

lemma and_bit_test:
  "(s AND RW \<noteq> 0) = bit s 0" "(s AND RG \<noteq> 0) = bit s 1"
  "(s AND RC \<noteq> 0) = bit s 2" "(s AND RP \<noteq> 0) = bit s 3"
  "(s AND LW \<noteq> 0) = bit s 4" "(s AND LG \<noteq> 0) = bit s 5"
  "(s AND LC \<noteq> 0) = bit s 6" "(s AND LP \<noteq> 0) = bit s 7"
  for s :: short
proof -
  have *: "(s AND 2 ^ k \<noteq> 0) = bit s k" for k
    by (simp add: and_exp_eq_0_iff_not_bit)
  show "(s AND RW \<noteq> 0) = bit s 0" using * [of 0] by (simp add: RW_def)
  show "(s AND RG \<noteq> 0) = bit s 1" using * [of 1] by (simp add: RG_def)
  show "(s AND RC \<noteq> 0) = bit s 2" using * [of 2] by (simp add: RC_def)
  show "(s AND RP \<noteq> 0) = bit s 3" using * [of 3] by (simp add: RP_def)
  show "(s AND LW \<noteq> 0) = bit s 4" using * [of 4] by (simp add: LW_def)
  show "(s AND LG \<noteq> 0) = bit s 5" using * [of 5] by (simp add: LG_def)
  show "(s AND LC \<noteq> 0) = bit s 6" using * [of 6] by (simp add: LC_def)
  show "(s AND LP \<noteq> 0) = bit s 7" using * [of 7] by (simp add: LP_def)
qed

lemma well_placed_bits:
  "well_placed s = ((bit s 7 \<noteq> bit s 3) \<and> (bit s 6 \<noteq> bit s 2) \<and> (bit s 5 \<noteq> bit s 1) \<and> (bit s 4 \<noteq> bit s 0))"
  by (simp add: well_placed_def one_bank_def and_bit_test)

lemma pows:
  "RW = 2 ^ 0" "RG = 2 ^ 1" "RC = 2 ^ 2" "RP = 2 ^ 3" "LW = 2 ^ 4" "LG = 2 ^ 5" "LC = 2 ^ 6" "LP = 2 ^ 7"
  by (simp_all add: bank_bits)

lemma well_placed_result: "well_placed s \<Longrightarrow> well_placed (BFSProblem_result s a)"
  unfolding well_placed_bits BFSProblem_result_def pows
  by (simp add: bit_simps)

lemma well_placed_init: "well_placed RPCGW"
  unfolding well_placed_bits RPCGW_def by simp

lemma moves_left:
  "a \<in> {LP, LP OR LC, LP OR LG, LP OR LW} \<Longrightarrow>
    BFSProblem_result s a = (s AND NOT (drop_bit 4 a)) OR a"
  by (auto simp: BFSProblem_result_def bank_bits or.assoc and.assoc simp flip: bit.de_Morgan_disj)

lemma moves_right:
  "a \<in> {RP, RP OR RC, RP OR RG, RP OR RW} \<Longrightarrow>
    BFSProblem_result s a = (s AND NOT (push_bit 4 a)) OR a"
  by (auto simp: BFSProblem_result_def bank_bits or.assoc and.assoc simp flip: bit.de_Morgan_disj)

section \<open>Evaluation of the search on concrete problems\<close>

lemmas search_eval = BFS_def BFSProblem_def getInitial_def goal_test_def Node_def
  getState_def solution_def while_frontier_Nil while_frontier_Cons loop_body_def childNode_def
  read_solution_def delete_all_def
  BFSProblem_actions_def BFSProblem_result_def bank_bits state_codes nth_append

lemma main_run: "BFS main_problem = Some (Inl UseAfterFree)"
  by (simp add: main_problem_def search_eval)

lemma main_path:
  "follows main_problem RPCGW [LP OR LG, RP, LP OR LC, RP OR RG, LP OR LW, RP, LP OR LG] PCGWR"
  by (simp add: main_problem_def search_eval)

lemma main_goal_child:
  "map_option (\<lambda>(H, F, E). childNode main_problem H (hd F) (LP OR LG))
     (run_iterations 9 main_problem [Node (getInitial main_problem) 0 None] [0] []) =
   Some \<lparr>state = PCGWR, action = LP OR LG,
     soln = [0, LP OR LG, RP, LP OR LC, RP OR RG, LP OR LW, RP, LP OR LG]\<rparr>"
  by (simp add: run_iterations_numeral main_problem_def BFSProblem_def getInitial_def
      goal_test_def Node_def getState_def solution_def loop_body_def childNode_def
      BFSProblem_actions_def BFSProblem_result_def bank_bits state_codes nth_append)

lemma one_step_run: "BFS (BFSProblem RPCGW PGRCW) = Some (Inl UseAfterFree)"
  by (simp add: search_eval)

lemma round_trip_run: "BFS (BFSProblem RPCGW RPCGW) = Some (Inr [0])"
  by (simp add: search_eval)

lemma default_goal_run: "BFS (BFSProblem RPCGW 0) = Some (Inr [])"
  by (simp add: search_eval)

section \<open>What the search returns\<close>

lemma BFS_trivial:
  assumes "goal_test p (initial p)"
  shows "BFS p = Some (Inr [0])"
proof -
  have "follows p (initial p) [] (initial p)" by simp
  with assms have "solvable p" unfolding solvable_def by blast
  with BFS_total [of p] assms show ?thesis by (auto simp: Post_def)
qed

lemma BFS_goal_found:
  assumes "solvable p" and "\<not> goal_test p (initial p)"
  shows "BFS p = Some (Inl UseAfterFree)"
  using BFS_total [of p] assms by (auto simp: Post_def)

lemma BFS_unsolvable:
  assumes "\<not> solvable p"
  shows "BFS p = Some (Inr [])"
  using BFS_total [of p] assms by (auto simp: Post_def)

lemma BFSProblem_result_zero: "BFSProblem_result s 0 = s"
  by (simp add: BFSProblem_result_def bank_bits)

lemma default_goal_unsolvable: "\<not> solvable (BFSProblem RPCGW 0)"
proof
  assume "solvable (BFSProblem RPCGW 0)"
  with BFS_total [of "BFSProblem RPCGW 0"] default_goal_run show False
    by (auto simp: Post_def split: if_splits)
qed

section \<open>The claims\<close>

text \<open>
  Claim C1 fails on the code.  For the instance built in \<open>main\<close> a sequence of seven
  legal actions leads from \<open>RPCGW\<close> to \<open>PCGWR\<close>, and in its tenth pass the search
  builds the child with state \<open>PCGWR\<close>, whose cached solution holds the root's sentinel
  and those seven actions; the goal branch then deletes every node, this child among
  them, and reads the solution of the deleted child, so \<open>BFS\<close> returns no defined
  sequence.
\<close>

theorem main_reads_deleted_child:
  "BFS main_problem = Some (Inl UseAfterFree) \<and>
   map_option (\<lambda>(H, F, E). childNode main_problem H (hd F) (LP OR LG))
     (run_iterations 9 main_problem [Node (getInitial main_problem) 0 None] [0] []) =
   Some \<lparr>state = PCGWR, action = LP OR LG,
     soln = [0, LP OR LG, RP, LP OR LC, RP OR RG, LP OR LW, RP, LP OR LG]\<rparr> \<and>
   follows main_problem (initial main_problem)
     [LP OR LG, RP, LP OR LC, RP OR RG, LP OR LW, RP, LP OR LG] PCGWR \<and>
   goal_test main_problem PCGWR"
  using main_run main_goal_child main_path
  by (simp add: main_problem_def BFSProblem_def goal_test_def)

text \<open>
  Claim C2 fails on the code.  One legal action leads from \<open>RPCGW\<close> to \<open>PGRCW\<close>, so
  the minimum number of actions for that problem is one; \<open>BFS\<close> finds the goal child in
  its first pass, deletes it with every other node and reads its solution: what it
  returns is not a defined sequence, of minimum length or any other.
\<close>

theorem one_action_reads_deleted_child:
  "BFS (BFSProblem RPCGW PGRCW) = Some (Inl UseAfterFree) \<and>
   follows (BFSProblem RPCGW PGRCW) (initial (BFSProblem RPCGW PGRCW)) [LP OR LG] PGRCW \<and>
   goal_test (BFSProblem RPCGW PGRCW) PGRCW"
  using one_step_run by (simp add: search_eval)

text \<open>
  Claim C3 fails on the code.  \<open>BFS\<close> terminates on every problem, but for every
  solvable problem whose initial state is not already the goal it leaves the loop
  through the goal branch, which reads the solution of a node it has deleted: there is
  no defined sequence to replay.
\<close>

theorem BFS_goal_path_reads_deleted_child:
  assumes "solvable p" and "\<not> goal_test p (initial p)"
  shows "BFS p = Some (Inl UseAfterFree)"
  using BFS_goal_found [OF assms] .

theorem BFS_goal_path_reads_deleted_child_witness:
  "solvable (BFSProblem RPCGW GRPCW) \<and>
   \<not> goal_test (BFSProblem RPCGW GRPCW) (initial (BFSProblem RPCGW GRPCW)) \<and>
   BFS (BFSProblem RPCGW GRPCW) = Some (Inl UseAfterFree)"
proof -
  have "follows (BFSProblem RPCGW GRPCW) (initial (BFSProblem RPCGW GRPCW)) [LP OR LG, RP] GRPCW \<and>
      goal_test (BFSProblem RPCGW GRPCW) GRPCW"
    by (simp add: search_eval)
  then have s: "solvable (BFSProblem RPCGW GRPCW)"
    unfolding solvable_def by blast
  have n: "\<not> goal_test (BFSProblem RPCGW GRPCW) (initial (BFSProblem RPCGW GRPCW))"
    by (simp add: goal_test_def BFSProblem_def state_codes)
  from s n BFS_goal_path_reads_deleted_child [OF s n] show ?thesis by blast
qed

text \<open>
  Claim C4, as the code has it: when the initial state passes \<open>goal_test\<close>, \<open>BFS\<close>
  returns the deque that holds the sentinel action 0 and nothing else (no move), which
  is not the empty deque returned on failure.
\<close>

theorem BFS_trivial_sentinel:
  assumes "goal_test p (initial p)"
  shows "BFS p = Some (Inr [0]) \<and> BFS p \<noteq> Some (Inr [])"
  using BFS_trivial [OF assms] by simp

theorem BFS_trivial_sentinel_witness:
  "goal_test (BFSProblem PCGWR PCGWR) (initial (BFSProblem PCGWR PCGWR)) \<and>
   BFS (BFSProblem PCGWR PCGWR) = Some (Inr [0]) \<and>
   BFS (BFSProblem PCGWR PCGWR) \<noteq> Some (Inr [])"
proof -
  have g: "goal_test (BFSProblem PCGWR PCGWR) (initial (BFSProblem PCGWR PCGWR))"
    by (simp add: goal_test_def BFSProblem_def)
  from g BFS_trivial_sentinel [OF g] show ?thesis by blast
qed

text \<open>
  With initial state and goal both \<open>RPCGW\<close> the initial state passes \<open>goal_test\<close>, and
  the deque returned is not empty.
\<close>

theorem BFS_trivial_not_empty:
  "goal_test (BFSProblem RPCGW RPCGW) (initial (BFSProblem RPCGW RPCGW)) \<and>
   BFS (BFSProblem RPCGW RPCGW) \<noteq> Some (Inr [])"
  using round_trip_run by (simp add: goal_test_def BFSProblem_def)

text \<open>
  Claim C5 fails on the code: the frontier test compares the pointer of the child just
  created with the queued pointers, so it never finds it.  In the run of \<open>main\<close>, after
  seven passes of the loop the frontier holds two nodes with state \<open>PCWRG\<close>, and after
  nine passes \<open>PCWRG\<close> has been expanded twice.
\<close>

theorem main_expands_state_twice:
  "map_option (\<lambda>(H, F, E). map (\<lambda>q. state (H ! q)) F)
     (run_iterations 7 main_problem [Node (getInitial main_problem) 0 None] [0] []) =
   Some [PCWRG, PCWRG] \<and>
   map_option (\<lambda>(H, F, E). E)
     (run_iterations 9 main_problem [Node (getInitial main_problem) 0 None] [0] []) =
   Some [RPCGW, PGRCW, GRPCW, PCGRW, PGWRC, CRPGW, WRPCG, PCWRG, PCWRG]"
  by (simp add: run_iterations_numeral main_problem_def BFSProblem_def getInitial_def
      goal_test_def Node_def getState_def solution_def loop_body_def childNode_def
      BFSProblem_actions_def BFSProblem_result_def bank_bits state_codes nth_append)

text \<open>
  Claim C6: when no legal action sequence leads from the initial state to the goal,
  \<open>BFS\<close> returns (the state space of 16-bit states is finite), and what it returns is
  the empty deque, which differs from what it returns for any problem whose initial
  state is the goal.
\<close>

theorem BFS_unsolvable_failure:
  assumes "\<not> solvable p"
  shows "BFS p = Some (Inr []) \<and> (\<forall>q. goal_test q (initial q) \<longrightarrow> BFS q \<noteq> BFS p)"
proof -
  have fail: "BFS p = Some (Inr [])" using BFS_unsolvable [OF assms] .
  have "BFS q \<noteq> BFS p" if "goal_test q (initial q)" for q
    using BFS_trivial [OF that] fail by simp
  with fail show ?thesis by blast
qed

theorem BFS_unsolvable_failure_witness:
  "\<not> solvable (BFSProblem RPCGW 0) \<and> BFS (BFSProblem RPCGW 0) = Some (Inr []) \<and>
   goal_test (BFSProblem CWRPG CWRPG) (initial (BFSProblem CWRPG CWRPG)) \<and>
   BFS (BFSProblem CWRPG CWRPG) \<noteq> BFS (BFSProblem RPCGW 0)"
proof -
  have g: "goal_test (BFSProblem CWRPG CWRPG) (initial (BFSProblem CWRPG CWRPG))"
    by (simp add: goal_test_def BFSProblem_def)
  from BFS_unsolvable_failure [OF default_goal_unsolvable] g default_goal_unsolvable
  show ?thesis by blast
qed

text \<open>
  Claim C7: the node constructed from a state, an action and a parent has as solution
  the parent's solution with the action appended; a node constructed without a parent
  has the one-element solution holding its action (the sentinel for the root); so a
  node at depth \<open>d\<close> has a solution of \<open>d + 1\<close> entries.
\<close>

theorem Node_solution_path:
  "solution (Node s a (Some p)) = solution p @ [a] \<and>
   solution (Node s a None) = [a] \<and>
   (node_at_depth d n \<longrightarrow> length (solution n) = d + 1)"
proof -
  have "length (solution n) = d + 1" if "node_at_depth d n"
    using that by induction (simp_all add: Node_def solution_def)
  then show ?thesis by (simp add: Node_def solution_def)
qed

theorem Node_solution_path_witness:
  "node_at_depth (Suc 0) (Node PGRCW (LP OR LG) (Some (Node RPCGW 0 None))) \<and>
   length (solution (Node PGRCW (LP OR LG) (Some (Node RPCGW 0 None)))) = Suc 0 + 1"
proof -
  have d: "node_at_depth (Suc 0) (Node PGRCW (LP OR LG) (Some (Node RPCGW 0 None)))"
    by (intro node_at_depth.intros)
  from d Node_solution_path [of PGRCW "LP OR LG" "Node RPCGW 0 None" "Suc 0"
      "Node PGRCW (LP OR LG) (Some (Node RPCGW 0 None))"]
  show ?thesis by blast
qed

text \<open>
  Claim C8: \<open>actions\<close> returns, for each of the nine states of the conditional chain,
  its actions in the order of the chain, and the empty deque for every other state, the
  goal state \<open>PCGWR\<close> among them.
\<close>

theorem BFSProblem_actions_table:
  "BFSProblem_actions RPCGW = [LP OR LG] \<and>
   BFSProblem_actions PGRCW = [RP, RP OR RG] \<and>
   BFSProblem_actions PCGRW = [RP OR RC, RP OR RG] \<and>
   BFSProblem_actions CRPGW = [LP OR LG, LP OR LW] \<and>
   BFSProblem_actions PCWRG = [RP OR RC, RP OR RW, RP] \<and>
   BFSProblem_actions WRPCG = [LP OR LC, LP OR LG] \<and>
   BFSProblem_actions CWRPG = [LP, LP OR LG] \<and>
   BFSProblem_actions GRPCW = [LP, LP OR LC, LP OR LW] \<and>
   BFSProblem_actions PGWRC = [RP OR RG, RP OR RW] \<and>
   BFSProblem_actions PCGWR = [] \<and>
   (s \<notin> {RPCGW, PGRCW, PCGRW, CRPGW, PCWRG, WRPCG, CWRPG, GRPCW, PGWRC} \<longrightarrow>
      BFSProblem_actions s = [])"
  by (simp add: BFSProblem_actions_def state_codes)

theorem BFSProblem_actions_table_witness:
  "(0x33 :: short) \<notin> {RPCGW, PGRCW, PCGRW, CRPGW, PCWRG, WRPCG, CWRPG, GRPCW, PGWRC} \<and>
   BFSProblem_actions 0x33 = []"
proof -
  have n: "(0x33 :: short) \<notin> {RPCGW, PGRCW, PCGRW, CRPGW, PCWRG, WRPCG, CWRPG, GRPCW, PGWRC}"
    by (simp add: state_codes)
  from n BFSProblem_actions_table [of "0x33"] show ?thesis by blast
qed

text \<open>
  Claim C9: for every state and every action that is not one of the eight move codes,
  \<open>result\<close> returns the state unchanged; in particular the sentinel action 0 is a no-op.
\<close>

theorem BFSProblem_result_unrecognised:
  "(a \<notin> {LP, LP OR LC, LP OR LG, LP OR LW, RP, RP OR RC, RP OR RG, RP OR RW} \<longrightarrow>
      BFSProblem_result s a = s) \<and>
   BFSProblem_result s 0 = s"
proof -
  have "BFSProblem_result s a = s"
    if "a \<notin> {LP, LP OR LC, LP OR LG, LP OR LW, RP, RP OR RC, RP OR RG, RP OR RW}"
    using that by (simp add: BFSProblem_result_def)
  with BFSProblem_result_zero [of s] show ?thesis by blast
qed

theorem BFSProblem_result_unrecognised_witness:
  "(0x03 :: short) \<notin> {LP, LP OR LC, LP OR LG, LP OR LW, RP, RP OR RC, RP OR RG, RP OR RW} \<and>
   BFSProblem_result RPCGW 0x03 = RPCGW"
proof -
  have n: "(0x03 :: short) \<notin> {LP, LP OR LC, LP OR LG, LP OR LW, RP, RP OR RC, RP OR RG, RP OR RW}"
    by (simp add: bank_bits)
  from n BFSProblem_result_unrecognised [of "0x03" RPCGW] show ?thesis by blast
qed

text \<open>
  Claim C10: the initial state \<open>RPCGW\<close> is well placed (each of the peasant, cabbage,
  goat and wolf has exactly one of its two bank bits set); \<open>result\<close> keeps a state well
  placed; a move to the left clears the right-bank bits of the moved entities (the
  action shifted down by four bits) and sets their left-bank bits, and a move to the
  right does the converse; so every state that legal actions reach from \<open>RPCGW\<close> is
  well placed, and so is the state of every node in \<open>expanded\<close> at every pass of the
  loop of a search started from \<open>RPCGW\<close>, whatever the goal.
\<close>

theorem well_placed_invariant:
  "well_placed RPCGW \<and>
   (well_placed s \<longrightarrow> well_placed (BFSProblem_result s c)) \<and>
   (a \<in> {LP, LP OR LC, LP OR LG, LP OR LW} \<longrightarrow>
      BFSProblem_result s a = (s AND NOT (drop_bit 4 a)) OR a) \<and>
   (b \<in> {RP, RP OR RC, RP OR RG, RP OR RW} \<longrightarrow>
      BFSProblem_result s b = (s AND NOT (push_bit 4 b)) OR b) \<and>
   (follows (BFSProblem RPCGW g) RPCGW as t \<longrightarrow> well_placed t) \<and>
   (run_iterations k (BFSProblem RPCGW g) [Node (getInitial (BFSProblem RPCGW g)) 0 None] [0] []
      = Some (H, F, E) \<longrightarrow> (\<forall>n\<in>set H. well_placed (state n)))"
proof -
  let ?p = "BFSProblem RPCGW g"
  have closed: "\<forall>s\<in>Collect well_placed. \<forall>a\<in>set (actions ?p s). result ?p s a \<in> Collect well_placed"
    by (simp add: BFSProblem_def well_placed_result)
  have reach: "well_placed t" if "follows ?p RPCGW as t"
    using closed_follows [OF that _ closed] well_placed_init by simp
  have heap: "\<forall>n\<in>set H. well_placed (state n)"
    if "run_iterations k ?p [Node (getInitial ?p) 0 None] [0] [] = Some (H, F, E)"
  proof (rule run_iterations_states [OF _ _ _ that])
    show "well_placed (result ?p s a)" if "well_placed s" for s a
      using that by (simp add: BFSProblem_def well_placed_result)
    show "\<forall>q\<in>set [0]. q < length [Node (getInitial ?p) 0 None]" by simp
    show "\<forall>m\<in>set [Node (getInitial ?p) 0 None]. well_placed (state m)"
      using well_placed_init by (simp add: Node_def getInitial_def BFSProblem_def)
  qed
  from well_placed_init well_placed_result [of s c] moves_left [of a s] moves_right [of b s]
    reach heap
  show ?thesis by blast
qed

theorem well_placed_invariant_witness:
  "well_placed RPCGW \<and> well_placed (BFSProblem_result RPCGW (LP OR LG)) \<and>
   LP OR LG \<in> {LP, LP OR LC, LP OR LG, LP OR LW} \<and>
   BFSProblem_result RPCGW (LP OR LG) = (RPCGW AND NOT (drop_bit 4 (LP OR LG))) OR (LP OR LG) \<and>
   RP \<in> {RP, RP OR RC, RP OR RG, RP OR RW} \<and>
   BFSProblem_result RPCGW RP = (RPCGW AND NOT (push_bit 4 RP)) OR RP \<and>
   follows (BFSProblem RPCGW PCGWR) RPCGW [LP OR LG, RP] GRPCW \<and> well_placed GRPCW \<and>
   run_iterations (Suc 0) (BFSProblem RPCGW PCGWR)
     [Node (getInitial (BFSProblem RPCGW PCGWR)) 0 None] [0] [] =
     Some ([Node RPCGW 0 None, Node PGRCW (LP OR LG) (Some (Node RPCGW 0 None))], [1], [RPCGW]) \<and>
   well_placed (state (Node RPCGW 0 None)) \<and>
   well_placed (state (Node PGRCW (LP OR LG) (Some (Node RPCGW 0 None))))"
proof -
  have f: "follows (BFSProblem RPCGW PCGWR) RPCGW [LP OR LG, RP] GRPCW"
    by (simp add: search_eval)
  have r: "run_iterations (Suc 0) (BFSProblem RPCGW PCGWR)
     [Node (getInitial (BFSProblem RPCGW PCGWR)) 0 None] [0] [] =
     Some ([Node RPCGW 0 None, Node PGRCW (LP OR LG) (Some (Node RPCGW 0 None))], [1], [RPCGW])"
    by (simp add: search_eval)
  have l: "LP OR LG \<in> {LP, LP OR LC, LP OR LG, LP OR LW}" by simp
  have m: "RP \<in> {RP, RP OR RC, RP OR RG, RP OR RW}" by simp
  note inst = well_placed_invariant [of RPCGW "LP OR LG" "LP OR LG" RP PCGWR "[LP OR LG, RP]" GRPCW
      "Suc 0" "[Node RPCGW 0 None, Node PGRCW (LP OR LG) (Some (Node RPCGW 0 None))]" "[1]" "[RPCGW]"]
  from r inst
  have "\<forall>n\<in>set [Node RPCGW 0 None, Node PGRCW (LP OR LG) (Some (Node RPCGW 0 None))].
      well_placed (state n)" by blast
  then have h: "well_placed (state (Node RPCGW 0 None)) \<and>
      well_placed (state (Node PGRCW (LP OR LG) (Some (Node RPCGW 0 None))))" by simp
  from f r l m h inst show ?thesis by blast
qed

end
